theory Spec2Isabelle
  imports Main "HOL-Library.Word" "HOL-Library.Code_Target_Nat"
begin

section \<open>Hashcash proof of work: the bit test\<close>

text \<open>
  The model follows \<^verbatim>\<open>pow/hashcash.go\<close>. Go's \<^verbatim>\<open>uint\<close> and \<^verbatim>\<open>int\<close> are taken at their
  64-bit width, a \<^verbatim>\<open>byte\<close> is an 8-bit word, and a Go \<^verbatim>\<open>string\<close> is a list of 8-bit
  characters. Run-time panics (a slice bound or an index out of range) are a value of the
  error type.
\<close>

type_synonym byte = "8 word"

datatype error =
    MalformedHeader
  | ConvertVersion
  | UnsupportedVersion
  | InvalidBits
  | InvalidDate
  | DecodeCounter
  | ConvertCounter
  | ParseHeader error
  | ParseCalculated error
  | ParseChallenge error
  | ChallengeMismatch
  | Panic

subsection \<open>checkBits\<close>

text \<open>
  The \<^verbatim>\<open>for _, b := range hash[:quotient]\<close> loop of \<^verbatim>\<open>checkBits\<close>: it leaves with
  \<^verbatim>\<open>false\<close> at the first byte that is not zero.
\<close>

fun zeroPrefix :: "byte list \<Rightarrow> bool" where
  "zeroPrefix [] = True"
| "zeroPrefix (b # bs) = (if b \<noteq> 0 then False else zeroPrefix bs)"

text \<open>
  \<^verbatim>\<open>hash[:quotient]\<close> panics when \<^verbatim>\<open>quotient\<close> exceeds the capacity of the slice (the
  model takes the capacity to be the length, as it is for the 32 bytes that \<^verbatim>\<open>Sum(nil)\<close>
  returns), and \<^verbatim>\<open>hash[quotient]\<close> panics when \<^verbatim>\<open>quotient\<close> is not below the length.
  The \<^verbatim>\<open>switch\<close> is kept case by case.
\<close>

definition checkBits :: "byte list \<Rightarrow> 64 word \<Rightarrow> error + bool" where
  "checkBits hash bits =
     (let modulo = bits mod 8;
          quotient = bits div 8
      in if length hash < unat quotient then Inl Panic
         else if \<not> zeroPrefix (take (unat quotient) hash) then Inr False
         else if modulo > 0 then
           (if length hash \<le> unat quotient then Inl Panic
            else
              (let b = hash ! unat quotient
               in if modulo = 1 then (if b > 127 then Inr False else Inr True)
                  else if modulo = 2 then (if b > 63 then Inr False else Inr True)
                  else if modulo = 3 then (if b > 31 then Inr False else Inr True)
                  else if modulo = 4 then (if b > 15 then Inr False else Inr True)
                  else if modulo = 5 then (if b > 7 then Inr False else Inr True)
                  else if modulo = 6 then (if b > 3 then Inr False else Inr True)
                  else if modulo = 7 then (if b > 1 then Inr False else Inr True)
                  else Inr True))
         else Inr True)"

text \<open>
  The specification's measure, written from its words: the number of leading zero bits
  of a digest is the number of zero bits before the first one bit, reading each byte
  from its most significant bit.
\<close>

definition byteBits :: "byte \<Rightarrow> bool list" where
  "byteBits b = map (\<lambda>i. bit b (7 - i)) [0..<8]"

definition leadingZeroBits :: "byte list \<Rightarrow> nat" where
  "leadingZeroBits d = length (takeWhile Not (concat (map byteBits d)))"


section \<open>The header codec\<close>

subsection \<open>Header\<close>

text \<open>
  \<^verbatim>\<open>type Header struct\<close>: \<^verbatim>\<open>version uint8\<close>, \<^verbatim>\<open>bits uint\<close>, three strings and
  \<^verbatim>\<open>counter int64\<close> (a 64-bit word read as two's complement, so that \<^verbatim>\<open>counter++\<close>
  wraps as it does in Go). The struct has no extension field.
\<close>

record Header =
  version :: "8 word"
  bits :: "64 word"
  date :: string
  resource :: string
  random :: string
  counter :: "64 word"

definition Version :: int where
  "Version = 1"

subsection \<open>Library functions the codec calls\<close>

text \<open>
  \<^verbatim>\<open>strings.Split(s, sep)\<close> for a one-character separator: the substrings between the
  separators, one more than there are separators, so never an empty list.
\<close>

fun Split :: "string \<Rightarrow> char \<Rightarrow> string list" where
  "Split [] sep = [[]]"
| "Split (c # cs) sep =
     (if c = sep then [] # Split cs sep
      else (case Split cs sep of
              [] \<Rightarrow> [[c]]
            | w # ws \<Rightarrow> (c # w) # ws))"

text \<open>
  \<^verbatim>\<open>strconv\<close>, base 10. \<^verbatim>\<open>digitsVal\<close> is the digit loop: it fails at the first
  character that is not a decimal digit. \<^verbatim>\<open>ParseInt(s, 10, 64)\<close> takes an optional sign,
  needs at least one digit, and fails when the value is outside the signed 64-bit range.
  \<^verbatim>\<open>Atoi\<close> is \<^verbatim>\<open>ParseInt(s, 10, 0)\<close> with \<^verbatim>\<open>int\<close> of 64 bits. \<^verbatim>\<open>None\<close> stands for the
  returned error.
\<close>

definition isDigit :: "char \<Rightarrow> bool" where
  "isDigit c \<longleftrightarrow> 48 \<le> (of_char c :: nat) \<and> (of_char c :: nat) \<le> 57"

fun digitsVal :: "nat \<Rightarrow> string \<Rightarrow> nat option" where
  "digitsVal acc [] = Some acc"
| "digitsVal acc (c # cs) =
     (if isDigit c then digitsVal (acc * 10 + (of_char c - 48)) cs else None)"

definition ParseUint :: "string \<Rightarrow> nat option" where
  "ParseUint s = (if s = [] then None else digitsVal 0 s)"

definition ParseInt :: "string \<Rightarrow> int option" where
  "ParseInt s =
     (if s = [] then None
      else
        (let neg = (hd s = CHR ''-'');
             s1 = (if hd s = CHR ''+'' \<or> hd s = CHR ''-'' then tl s else s)
         in case ParseUint s1 of
              None \<Rightarrow> None
            | Some un \<Rightarrow>
                if \<not> neg \<and> 2 ^ 63 \<le> int un then None
                else if neg \<and> 2 ^ 63 < int un then None
                else Some (if neg then - int un else int un)))"

definition Atoi :: "string \<Rightarrow> int option" where
  "Atoi s = ParseInt s"

text \<open>\<^verbatim>\<open>strconv.FormatUint(n, 10)\<close> and \<^verbatim>\<open>strconv.FormatInt(i, 10)\<close>; \<^verbatim>\<open>%d\<close> prints the same text.\<close>

fun FormatUint :: "nat \<Rightarrow> string" where
  "FormatUint n =
     (if n < 10 then [char_of (48 + n)]
      else FormatUint (n div 10) @ [char_of (48 + n mod 10)])"

definition FormatInt :: "int \<Rightarrow> string" where
  "FormatInt i = (if i < 0 then CHR ''-'' # FormatUint (nat (- i)) else FormatUint (nat i))"

text \<open>
  \<^verbatim>\<open>base64.StdEncoding\<close>: the standard alphabet with \<^verbatim>\<open>=\<close> padding. The encoder takes
  three bytes to four characters (\<^verbatim>\<open>val>>18&0x3F\<close> and so on, written with \<open>div\<close> and
  \<open>mod\<close>). The decoder skips carriage returns and line feeds wherever they stand, needs
  complete padded quanta, accepts padding only at the end, and does not check the unused
  low bits of a padded quantum (\<^verbatim>\<open>StdEncoding\<close> is not strict).
\<close>

definition encodeStd :: string where
  "encodeStd = ''ABCDEFGHIJKLMNOPQRSTUVWXYZabcdefghijklmnopqrstuvwxyz0123456789+/''"

definition padChar :: char where
  "padChar = CHR ''=''"

definition encode :: "nat \<Rightarrow> char" where
  "encode i = encodeStd ! i"

fun indexIn :: "string \<Rightarrow> char \<Rightarrow> nat option" where
  "indexIn [] c = None"
| "indexIn (x # xs) c = (if x = c then Some 0 else map_option Suc (indexIn xs c))"

definition decodeMap :: "char \<Rightarrow> nat option" where
  "decodeMap c = indexIn encodeStd c"

fun EncodeToString :: "string \<Rightarrow> string" where
  "EncodeToString (a # b # c # rest) =
     (let val = of_char a * 65536 + of_char b * 256 + of_char c
      in [encode (val div 262144 mod 64), encode (val div 4096 mod 64),
          encode (val div 64 mod 64), encode (val mod 64)] @ EncodeToString rest)"
| "EncodeToString [a, b] =
     (let val = of_char a * 65536 + of_char b * 256
      in [encode (val div 262144 mod 64), encode (val div 4096 mod 64),
          encode (val div 64 mod 64), padChar])"
| "EncodeToString [a] =
     (let val = of_char a * 65536
      in [encode (val div 262144 mod 64), encode (val div 4096 mod 64), padChar, padChar])"
| "EncodeToString [] = []"

fun decodeQuanta :: "string \<Rightarrow> string option" where
  "decodeQuanta [] = Some []"
| "decodeQuanta (a # b # c # d # rest) =
     (case decodeMap a of None \<Rightarrow> None | Some x \<Rightarrow>
      case decodeMap b of None \<Rightarrow> None | Some y \<Rightarrow>
      case decodeMap c of
        None \<Rightarrow>
          if c = padChar \<and> d = padChar \<and> rest = []
          then Some [char_of ((x * 262144 + y * 4096) div 65536)]
          else None
      | Some z \<Rightarrow>
          (case decodeMap d of
             None \<Rightarrow>
               if d = padChar \<and> rest = []
               then (let val = x * 262144 + y * 4096 + z * 64
                     in Some [char_of (val div 65536), char_of (val div 256)])
               else None
           | Some w \<Rightarrow>
               (case decodeQuanta rest of
                  None \<Rightarrow> None
                | Some bs \<Rightarrow>
                    (let val = x * 262144 + y * 4096 + z * 64 + w
                     in Some ([char_of (val div 65536), char_of (val div 256), char_of val] @ bs)))))"
| "decodeQuanta _ = None"

definition DecodeString :: "string \<Rightarrow> string option" where
  "DecodeString s = decodeQuanta (filter (\<lambda>c. c \<noteq> CHR 0x0A \<and> c \<noteq> CHR 0x0D) s)"


subsection \<open>String and ParseHeaderString\<close>

text \<open>
  \<^verbatim>\<open>Header.String\<close>: \<^verbatim>\<open>fmt.Sprintf("%d:%d:%s:%s::%s:%s", Version, h.bits, h.date,
  h.resource, h.random, counter)\<close>. The first field is the constant \<^verbatim>\<open>Version\<close>, not the
  header's own version, and nothing stands between the fourth and the fifth colon.
\<close>

definition String :: "Header \<Rightarrow> string" where
  "String h =
     (let counter' = EncodeToString (FormatInt (sint (counter h)))
      in FormatInt Version @ '':'' @ FormatUint (unat (bits h)) @ '':'' @ date h @ '':''
         @ resource h @ '':'' @ '':'' @ random h @ '':'' @ counter')"

text \<open>
  \<^verbatim>\<open>ParseHeaderString\<close>. The date check \<^verbatim>\<open>timefmt.Parse(date, FormatDate)\<close> belongs to a
  library outside the repository; the parser takes its verdict as the parameter
  \<open>dateOk\<close> (true when \<^verbatim>\<open>timefmt.Parse\<close> returns no error). \<^verbatim>\<open>split[4]\<close> is never read.
  \<^verbatim>\<open>uint8(version)\<close>, \<^verbatim>\<open>uint(bits)\<close> are Go's wrapping conversions.
\<close>

definition ParseHeaderString :: "(string \<Rightarrow> bool) \<Rightarrow> string \<Rightarrow> error + Header" where
  "ParseHeaderString dateOk header =
     (let split = Split header CHR '':''
      in if length split \<noteq> 7 then Inl MalformedHeader
         else
           (case Atoi (split ! 0) of
              None \<Rightarrow> Inl ConvertVersion
            | Some version' \<Rightarrow>
                if version' \<noteq> Version then Inl UnsupportedVersion
                else
                  (case Atoi (split ! 1) of
                     None \<Rightarrow> Inl InvalidBits
                   | Some bits' \<Rightarrow>
                       (let date' = split ! 2
                        in if \<not> dateOk date' then Inl InvalidDate
                           else
                             (let resource' = split ! 3;
                                  random' = split ! 5
                              in case DecodeString (split ! 6) of
                                   None \<Rightarrow> Inl DecodeCounter
                                 | Some b \<Rightarrow>
                                     (case ParseInt b of
                                        None \<Rightarrow> Inl ConvertCounter
                                      | Some counter' \<Rightarrow>
                                          Inr \<lparr>version = word_of_int version',
                                               bits = word_of_int bits',
                                               date = date',
                                               resource = resource',
                                               random = random',
                                               counter = word_of_int counter'\<rparr>))))))"

section \<open>The proof-of-work engine\<close>

subsection \<open>The shared hasher\<close>

text \<open>
  \<^verbatim>\<open>var hasher = sha256.New()\<close> is one package-level object. A \<^verbatim>\<open>hash.Hash\<close> is
  determined by the bytes written to it since it was created or last reset, so its state is
  modelled as that byte string. SHA-256 itself is library code: the digest function is the
  parameter \<open>sha\<close>, from the bytes written to the digest.
\<close>

type_synonym hasher = string

definition Reset :: "hasher \<Rightarrow> hasher" where
  "Reset hs = []"

definition Write :: "hasher \<Rightarrow> string \<Rightarrow> hasher" where
  "Write hs p = hs @ p"

definition Sum :: "(string \<Rightarrow> byte list) \<Rightarrow> hasher \<Rightarrow> byte list" where
  "Sum sha hs = sha hs"

text \<open>\<^verbatim>\<open>getHash\<close> returns the digest; the second component is the hasher as it leaves it.\<close>

definition getHash :: "(string \<Rightarrow> byte list) \<Rightarrow> string \<Rightarrow> hasher \<Rightarrow> byte list \<times> hasher" where
  "getHash sha header hs =
     (let hs1 = Reset hs;
          hs2 = Write hs1 header
      in (Sum sha hs2, hs2))"

subsection \<open>Calculate\<close>

text \<open>
  The \<^verbatim>\<open>for\<close> loop of \<^verbatim>\<open>Calculate\<close> has no bound: it is a partial function, \<open>None\<close>
  when it never returns. A panic of \<^verbatim>\<open>checkBits\<close> ends it. \<^verbatim>\<open>header.counter++\<close> wraps.
\<close>

partial_function (option) calculateLoop ::
  "(string \<Rightarrow> byte list) \<Rightarrow> 64 word \<Rightarrow> Header \<Rightarrow> hasher \<Rightarrow> ((error + string) \<times> hasher) option" where
  "calculateLoop sha bits' header hs =
     (let (calculatedHash, hs') = getHash sha (String header) hs
      in case checkBits calculatedHash bits' of
           Inl e \<Rightarrow> Some (Inl e, hs')
         | Inr ok \<Rightarrow>
             if \<not> ok then calculateLoop sha bits' (header\<lparr>counter := counter header + 1\<rparr>) hs'
             else Some (Inr (String header), hs'))"

declare calculateLoop.simps [code]

definition Calculate ::
  "(string \<Rightarrow> bool) \<Rightarrow> (string \<Rightarrow> byte list) \<Rightarrow> string \<Rightarrow> hasher \<Rightarrow> ((error + string) \<times> hasher) option" where
  "Calculate dateOk sha headerStr hs =
     (case ParseHeaderString dateOk headerStr of
        Inl e \<Rightarrow> Some (Inl (ParseHeader e), hs)
      | Inr header \<Rightarrow> calculateLoop sha (bits header) header hs)"

subsection \<open>Verify\<close>

definition Verify ::
  "(string \<Rightarrow> bool) \<Rightarrow> (string \<Rightarrow> byte list) \<Rightarrow> string \<Rightarrow> string \<Rightarrow> hasher \<Rightarrow> (error + bool) \<times> hasher" where
  "Verify dateOk sha calculated challenge hs =
     (case ParseHeaderString dateOk calculated of
        Inl e \<Rightarrow> (Inl (ParseCalculated e), hs)
      | Inr calculatedHeader \<Rightarrow>
          (case ParseHeaderString dateOk challenge of
             Inl e \<Rightarrow> (Inl (ParseChallenge e), hs)
           | Inr challengeHeader \<Rightarrow>
               if version calculatedHeader \<noteq> version challengeHeader \<or>
                  bits calculatedHeader \<noteq> bits challengeHeader \<or>
                  date calculatedHeader \<noteq> date challengeHeader \<or>
                  resource calculatedHeader \<noteq> resource challengeHeader \<or>
                  random calculatedHeader \<noteq> random challengeHeader
               then (Inl ChallengeMismatch, hs)
               else
                 (let (calculatedHash, hs') = getHash sha (String calculatedHeader) hs
                  in case checkBits calculatedHash (bits calculatedHeader) of
                       Inl e \<Rightarrow> (Inl e, hs')
                     | Inr ok \<Rightarrow> if \<not> ok then (Inr False, hs') else (Inr True, hs'))))"

section \<open>The orchestrator: the bits of an issued challenge\<close>

text \<open>
  \<^verbatim>\<open>ProofOfWork.ServeTCP\<close> picks \<^verbatim>\<open>bits := rand.Intn(h.complexity-10) + 10\<close> and passes
  \<^verbatim>\<open>uint(bits)\<close> to the challenge function. \<^verbatim>\<open>int\<close> arithmetic wraps at 64 bits.
  \<^verbatim>\<open>rand.Intn(n)\<close> panics when \<^verbatim>\<open>n <= 0\<close> and otherwise returns some number in
  \<open>[0, n)\<close>: \<open>Intn_returns n r\<close> says that \<open>r\<close> is a possible result, and
  \<open>challengeBits\<close> takes the number drawn as its second argument.
\<close>

definition wrap64 :: "int \<Rightarrow> int" where
  "wrap64 x = (x + 2 ^ 63) mod 2 ^ 64 - 2 ^ 63"

definition Intn_returns :: "int \<Rightarrow> int \<Rightarrow> bool" where
  "Intn_returns n r \<longleftrightarrow> 0 < n \<and> 0 \<le> r \<and> r < n"

definition challengeBits :: "int \<Rightarrow> int \<Rightarrow> error + 64 word" where
  "challengeBits complexity r =
     (let n = wrap64 (complexity - 10)
      in if n \<le> 0 then Inl Panic
         else (let bits' = wrap64 (r + 10) in Inr (word_of_int bits')))"


section \<open>The wire format, and stand-ins for the two library parameters\<close>

text \<open>
  The specification's wire format is seven fields joined by colons; \<open>Join\<close> is
  \<^verbatim>\<open>strings.Join\<close>, used to state it.
\<close>

fun Join :: "string list \<Rightarrow> string \<Rightarrow> string" where
  "Join [] sep = []"
| "Join [x] sep = x"
| "Join (x # y # ys) sep = x @ sep @ Join (y # ys) sep"

text \<open>
  To run the parser and the engine on concrete inputs the two parameters need values.
  \<open>tenDigits\<close> accepts the ten-digit timestamps that \<^verbatim>\<open>timefmt.Format(t, "%y%m%d%H%M")\<close>
  writes. \<open>sumDigest\<close> is a 32-byte checksum in place of SHA-256: the sum of the bytes
  written, then 31 zero bytes. The general theorems do not depend on either.
\<close>

definition tenDigits :: "string \<Rightarrow> bool" where
  "tenDigits d \<longleftrightarrow> length d = 10 \<and> list_all isDigit d"

definition sumDigest :: "string \<Rightarrow> byte list" where
  "sumDigest s = word_of_nat (sum_list (map of_char s)) # replicate 31 0"

section \<open>Properties of the bit test\<close>


lemma zeroPrefix_iff: "zeroPrefix xs \<longleftrightarrow> (\<forall>b\<in>set xs. b = 0)"
  by (induction xs) auto

lemma zeroPrefix_take:
  "q \<le> length d \<Longrightarrow> zeroPrefix (take q d) \<longleftrightarrow> (\<forall>i<q. d ! i = 0)"
  by (simp add: zeroPrefix_iff all_set_conv_all_nth)

lemma byte_zero_bits: "(b::byte) = 0 \<longleftrightarrow> (\<forall>m<8. \<not> bit b m)"
proof
  assume "b = 0" then show "\<forall>m<8. \<not> bit b m" by simp
next
  assume h: "\<forall>m<8. \<not> bit b m"
  show "b = 0" by (rule bit_word_eqI) (use h in simp)
qed

lemma byte_gt_iff:
  "(b::byte) > 1 \<longleftrightarrow> \<not> unat b < 2 ^ 1"
  "(b::byte) > 3 \<longleftrightarrow> \<not> unat b < 2 ^ 2"
  "(b::byte) > 7 \<longleftrightarrow> \<not> unat b < 2 ^ 3"
  "(b::byte) > 15 \<longleftrightarrow> \<not> unat b < 2 ^ 4"
  "(b::byte) > 31 \<longleftrightarrow> \<not> unat b < 2 ^ 5"
  "(b::byte) > 63 \<longleftrightarrow> \<not> unat b < 2 ^ 6"
  "(b::byte) > 127 \<longleftrightarrow> \<not> unat b < 2 ^ 7"
  unfolding word_less_nat_alt by (simp_all, arith+)

lemma byte_top_bits:
  assumes "n < 8"
  shows "unat (b::byte) < 2 ^ n \<longleftrightarrow> (\<forall>m. n \<le> m \<and> m < 8 \<longrightarrow> \<not> bit b m)"
proof -
  have hi: "\<not> bit b m" if "8 \<le> m" for m
    using bit_imp_le_length [of b m] that by auto
  have "unat b < 2 ^ n \<longleftrightarrow> take_bit n (unat b) = unat b"
    by (simp add: take_bit_nat_eq_self_iff)
  also have "\<dots> \<longleftrightarrow> (\<forall>m. bit (take_bit n (unat b)) m = bit (unat b) m)"
    by (simp add: bit_eq_iff)
  also have "\<dots> \<longleftrightarrow> (\<forall>m. (m < n \<and> bit b m) = bit b m)"
    by (simp add: bit_take_bit_iff bit_unsigned_iff)
  also have "\<dots> \<longleftrightarrow> (\<forall>m. n \<le> m \<and> m < 8 \<longrightarrow> \<not> bit b m)"
    using hi by (metis not_le)
  finally show ?thesis .
qed

lemma takeWhile_Not_ge:
  "n \<le> length (takeWhile Not bs) \<longleftrightarrow> n \<le> length bs \<and> (\<forall>i<n. \<not> bs ! i)"
proof (induction bs arbitrary: n)
  case Nil
  then show ?case by auto
next
  case (Cons b bs)
  show ?case
  proof (cases n)
    case 0
    then show ?thesis by simp
  next
    case (Suc m)
    then show ?thesis using Cons.IH [of m]
      by (auto simp: less_Suc_eq_0_disj)
  qed
qed

lemma length_byteBits: "length (byteBits b) = 8"
  by (simp add: byteBits_def)

lemma length_concat_byteBits: "length (concat (map byteBits d)) = 8 * length d"
  by (induction d) (simp_all add: length_byteBits)

lemma nth_concat_byteBits:
  "k < 8 * length d \<Longrightarrow> concat (map byteBits d) ! k = bit (d ! (k div 8)) (7 - k mod 8)"
proof (induction d arbitrary: k)
  case Nil
  then show ?case by simp
next
  case (Cons b d)
  show ?case
  proof (cases "k < 8")
    case True
    then show ?thesis by (simp add: nth_append length_byteBits byteBits_def)
  next
    case False
    then have "k - 8 < 8 * length d" using Cons.prems by simp
    from Cons.IH [OF this] False show ?thesis
      by (simp add: nth_append length_byteBits le_div_geq le_mod_geq)
  qed
qed



lemma top_bits_lt:
  assumes "0 < r" "r < 8"
  shows "(\<forall>j<r. \<not> bit (b::byte) (7 - j)) \<longleftrightarrow> unat b < 2 ^ (8 - r)"
proof -
  have "unat b < 2 ^ (8 - r) \<longleftrightarrow> (\<forall>m. 8 - r \<le> m \<and> m < 8 \<longrightarrow> \<not> bit b m)"
    using assms by (intro byte_top_bits) simp
  also have "\<dots> \<longleftrightarrow> (\<forall>j<r. \<not> bit b (7 - j))"
  proof (intro iffI allI impI)
    fix j assume h: "\<forall>m. 8 - r \<le> m \<and> m < 8 \<longrightarrow> \<not> bit b m" and "j < r"
    then show "\<not> bit b (7 - j)" using assms by (intro h [rule_format]) arith
  next
    fix m assume h: "\<forall>j<r. \<not> bit b (7 - j)" and m: "8 - r \<le> m \<and> m < 8"
    then have "7 - m < r" using assms by arith
    from h [rule_format, OF this] m show "\<not> bit b m" by simp
  qed
  finally show ?thesis by simp
qed

lemma split8:
  fixes i j :: nat
  assumes "j < 8"
  shows "(8 * i + j) div 8 = i" "(8 * i + j) mod 8 = j"
  using assms by simp_all

lemma lt_by_div8:
  fixes k n :: nat
  assumes "k div 8 < n div 8"
  shows "k < n"
proof (rule ccontr)
  assume "\<not> k < n"
  then have "n div 8 \<le> k div 8" by (simp add: div_le_mono)
  with assms show False by simp
qed

lemma leadingZeroBits_ge:
  assumes "n \<le> 8 * length d"
  shows "n \<le> leadingZeroBits d \<longleftrightarrow>
         (\<forall>i < n div 8. d ! i = 0) \<and> (\<forall>j < n mod 8. \<not> bit (d ! (n div 8)) (7 - j))"
proof -
  have 1: "n \<le> leadingZeroBits d \<longleftrightarrow> (\<forall>k<n. \<not> bit (d ! (k div 8)) (7 - k mod 8))"
    unfolding leadingZeroBits_def takeWhile_Not_ge length_concat_byteBits
    using assms by (auto simp: nth_concat_byteBits)
  have n: "n = 8 * (n div 8) + n mod 8" by simp
  show ?thesis unfolding 1
  proof (intro iffI conjI allI impI)
    fix i assume h: "\<forall>k<n. \<not> bit (d ! (k div 8)) (7 - k mod 8)" and i: "i < n div 8"
    show "d ! i = 0" unfolding byte_zero_bits
    proof (intro allI impI)
      fix m :: nat assume m: "m < 8"
      define k where "k = 8 * i + (7 - m)"
      have kd: "k div 8 = i" and km: "k mod 8 = 7 - m"
        unfolding k_def using m by (simp_all only: split8 diff_less_Suc less_Suc_eq_le diff_le_self)
      have "k div 8 < n div 8" using i kd by simp
      then have "k < n" by (rule lt_by_div8)
      from h [rule_format, OF this] have "\<not> bit (d ! i) (7 - (7 - m))" unfolding kd km .
      moreover have "7 - (7 - m) = m" using m by simp
      ultimately show "\<not> bit (d ! i) m" by simp
    qed
  next
    fix j assume h: "\<forall>k<n. \<not> bit (d ! (k div 8)) (7 - k mod 8)" and j: "j < n mod 8"
    define k where "k = 8 * (n div 8) + j"
    have j8: "j < 8" using j by (meson less_trans mod_less_divisor zero_less_numeral)
    have kd: "k div 8 = n div 8" and km: "k mod 8 = j"
      unfolding k_def using j8 by (simp_all only: split8)
    have "k < 8 * (n div 8) + n mod 8" unfolding k_def using j by (rule add_strict_left_mono)
    also have "\<dots> = n" by simp
    finally have "k < n" .
    from h [rule_format, OF this] show "\<not> bit (d ! (n div 8)) (7 - j)" unfolding kd km .
  next
    fix k assume h: "(\<forall>i<n div 8. d ! i = 0) \<and> (\<forall>j<n mod 8. \<not> bit (d ! (n div 8)) (7 - j))"
      and k: "k < n"
    show "\<not> bit (d ! (k div 8)) (7 - k mod 8)"
    proof (cases "k div 8 < n div 8")
      case True
      with h show ?thesis by simp
    next
      case False
      have le: "k div 8 \<le> n div 8" using k by (simp add: div_le_mono)
      with False have eq: "k div 8 = n div 8" by simp
      have "k mod 8 < n mod 8"
      proof (rule ccontr)
        assume "\<not> k mod 8 < n mod 8"
        then have "n mod 8 \<le> k mod 8" by simp
        then have "8 * (n div 8) + n mod 8 \<le> 8 * (n div 8) + k mod 8"
          by (rule add_left_mono)
        also have "\<dots> = 8 * (k div 8) + k mod 8" unfolding eq ..
        finally have "n \<le> k" by simp
        with k show False by simp
      qed
      with h eq show ?thesis by simp
    qed
  qed
qed




lemma checkBits_char:
  assumes "unat nbits div 8 < length d"
  shows "checkBits d nbits =
         Inr ((\<forall>i < unat nbits div 8. d ! i = 0) \<and>
              (0 < unat nbits mod 8 \<longrightarrow> unat (d ! (unat nbits div 8)) < 2 ^ (8 - unat nbits mod 8)))"
proof -
  define r where "r = unat nbits mod 8"
  define q where "q = unat nbits div 8"
  have uq: "unat (nbits div 8) = q" by (simp add: unat_div q_def)
  have ur: "unat (nbits mod 8) = r" by (simp add: unat_mod r_def)
  have r8: "r < 8" by (simp add: r_def)
  have pos: "nbits mod 8 > 0 \<longleftrightarrow> 0 < r" by (simp add: word_less_nat_alt ur)
  have eqs: "nbits mod 8 = 1 \<longleftrightarrow> r = 1" "nbits mod 8 = 2 \<longleftrightarrow> r = 2" "nbits mod 8 = 3 \<longleftrightarrow> r = 3"
    "nbits mod 8 = 4 \<longleftrightarrow> r = 4" "nbits mod 8 = 5 \<longleftrightarrow> r = 5" "nbits mod 8 = 6 \<longleftrightarrow> r = 6"
    "nbits mod 8 = 7 \<longleftrightarrow> r = 7"
    by (simp_all add: word_unat_eq_iff ur)
  have ql: "q < length d" using assms by (simp add: q_def)
  consider "r = 0" | "r = 1" | "r = 2" | "r = 3" | "r = 4" | "r = 5" | "r = 6" | "r = 7"
    using r8 by arith
  then have "checkBits d nbits = Inr ((\<forall>i < q. d ! i = 0) \<and> (0 < r \<longrightarrow> unat (d ! q) < 2 ^ (8 - r)))"
    using ql
    by cases (simp_all add: checkBits_def Let_def uq pos eqs zeroPrefix_take byte_gt_iff)
  then show ?thesis by (simp add: q_def r_def)
qed



text \<open>
  Claim C1. For every \<open>nbits\<close> in \<open>[0, 64)\<close> and every byte sequence \<open>d\<close> of at least 8
  bytes, \<open>checkBits\<close> returns without a panic and accepts \<open>d\<close> exactly when \<open>d\<close> has at
  least \<open>nbits\<close> leading zero nbits; that is, with \<open>q = nbits div 8\<close> and \<open>r = nbits mod 8\<close>, when
  the first \<open>q\<close> bytes are zero and, if \<open>r > 0\<close>, the byte at index \<open>q\<close> is below
  \<open>2 ^ (8 - r)\<close>. Bytes beyond index \<open>q\<close> do not matter: any \<open>d'\<close> that agrees with \<open>d\<close> up
  to index \<open>q\<close> gets the same answer. \<open>nbits = 0\<close> always passes.
\<close>
theorem checkBits_leading_zero_bits:
  assumes "unat nbits < 64" and "8 \<le> length d"
  shows "checkBits d nbits = Inr (unat nbits \<le> leadingZeroBits d)
       \<and> (unat nbits \<le> leadingZeroBits d \<longleftrightarrow>
            (\<forall>i < unat nbits div 8. d ! i = 0) \<and>
            (0 < unat nbits mod 8 \<longrightarrow> unat (d ! (unat nbits div 8)) < 2 ^ (8 - unat nbits mod 8)))
       \<and> (\<forall>d'. take (Suc (unat nbits div 8)) d' = take (Suc (unat nbits div 8)) d
              \<longrightarrow> checkBits d' nbits = checkBits d nbits)
       \<and> checkBits d 0 = Inr True"
proof -
  define q where "q = unat nbits div 8"
  define r where "r = unat nbits mod 8"
  have q8: "q < 8" unfolding q_def using assms(1) by arith
  have ql: "q < length d" using q8 assms(2) by simp
  have r8: "r < 8" by (simp add: r_def)
  have nl: "unat nbits \<le> 8 * length d" using assms by simp
  have top: "(\<forall>j<r. \<not> bit (d ! q) (7 - j)) \<longleftrightarrow> (0 < r \<longrightarrow> unat (d ! q) < 2 ^ (8 - r))"
  proof (cases "r = 0")
    case True
    then show ?thesis by simp
  next
    case False
    then show ?thesis using top_bits_lt [of r "d ! q"] r8 by simp
  qed
  have lz: "unat nbits \<le> leadingZeroBits d \<longleftrightarrow>
        (\<forall>i < q. d ! i = 0) \<and> (0 < r \<longrightarrow> unat (d ! q) < 2 ^ (8 - r))"
  proof -
    have "unat nbits \<le> leadingZeroBits d \<longleftrightarrow>
        (\<forall>i < q. d ! i = 0) \<and> (\<forall>j<r. \<not> bit (d ! q) (7 - j))"
      using leadingZeroBits_ge [OF nl] by (simp add: q_def r_def)
    then show ?thesis unfolding top .
  qed
  have ch: "checkBits d nbits = Inr ((\<forall>i < q. d ! i = 0) \<and> (0 < r \<longrightarrow> unat (d ! q) < 2 ^ (8 - r)))"
    unfolding q_def r_def using ql by (intro checkBits_char) (simp add: q_def)
  have frame: "checkBits d' nbits = checkBits d nbits" if t: "take (Suc q) d' = take (Suc q) d" for d'
  proof -
    have "length (take (Suc q) d') = Suc q" unfolding t using ql by simp
    then have ql': "q < length d'" by simp
    have nth: "d' ! i = d ! i" if "i \<le> q" for i
    proof -
      have "take (Suc q) d' ! i = take (Suc q) d ! i" unfolding t ..
      then show ?thesis using that by simp
    qed
    have "checkBits d' nbits = Inr ((\<forall>i < q. d' ! i = 0) \<and> (0 < r \<longrightarrow> unat (d' ! q) < 2 ^ (8 - r)))"
      unfolding q_def r_def using ql' by (intro checkBits_char) (simp add: q_def)
    also have "\<dots> = Inr ((\<forall>i < q. d ! i = 0) \<and> (0 < r \<longrightarrow> unat (d ! q) < 2 ^ (8 - r)))"
      using nth by simp
    finally show ?thesis unfolding ch .
  qed
  have zero: "checkBits d 0 = Inr True"
    by (simp add: checkBits_def)
  have "checkBits d nbits = Inr (unat nbits \<le> leadingZeroBits d)"
    unfolding ch lz ..
  moreover note lz
  moreover have "\<forall>d'. take (Suc q) d' = take (Suc q) d \<longrightarrow> checkBits d' nbits = checkBits d nbits"
    using frame by blast
  moreover note zero
  ultimately show ?thesis unfolding q_def r_def by blast
qed


theorem checkBits_leading_zero_bits_witness:
  "unat (12 :: 64 word) < 64 \<and> 8 \<le> length [0, 15, 255, 1, 2, 3, 4, 5 :: byte]
   \<and> checkBits [0, 15, 255, 1, 2, 3, 4, 5] 12 = Inr (12 \<le> leadingZeroBits [0, 15, 255, 1, 2, 3, 4, 5])
   \<and> checkBits [0, 15, 255, 1, 2, 3, 4, 5] 12 = Inr True
   \<and> checkBits [0, 16, 0, 0, 0, 0, 0, 0] 12 = Inr False"
  using checkBits_leading_zero_bits [of 12 "[0, 15, 255, 1, 2, 3, 4, 5]"]
  by (simp add: checkBits_def)

section \<open>Properties of the codec's library functions\<close>


lemma Split_not_Nil: "Split s sep \<noteq> []"
  by (induction s) (auto split: list.splits)

lemma Split_no_sep: "sep \<notin> set s \<Longrightarrow> Split s sep = [s]"
  by (induction s) auto

lemma Split_append_sep:
  "sep \<notin> set a \<Longrightarrow> Split (a @ sep # rest) sep = a # Split rest sep"
  by (induction a) auto

declare FormatUint.simps [simp del]

lemma of_char_digit: "d < 10 \<Longrightarrow> (of_char (char_of (48 + d :: nat)) :: nat) = 48 + d"
  by simp

lemma isDigit_char_of: "d < 10 \<Longrightarrow> isDigit (char_of (48 + d :: nat))"
  by (simp add: isDigit_def)

lemma FormatUint_not_Nil: "FormatUint n \<noteq> []"
  by (subst FormatUint.simps) simp

lemma FormatUint_digits: "c \<in> set (FormatUint n) \<Longrightarrow> isDigit c"
proof (induction n arbitrary: c rule: FormatUint.induct)
  case (1 n)
  show ?case
  proof (cases "n < 10")
    case True
    with "1.prems" show ?thesis
      by (subst (asm) FormatUint.simps) (simp add: isDigit_char_of)
  next
    case False
    with "1.prems" "1.IH" show ?thesis
      by (subst (asm) FormatUint.simps) (auto simp: isDigit_char_of)
  qed
qed

lemma digitsVal_append:
  "digitsVal acc (xs @ ys) = (case digitsVal acc xs of None \<Rightarrow> None | Some a \<Rightarrow> digitsVal a ys)"
  by (induction xs arbitrary: acc) auto

lemma digitsVal_digit: "d < 10 \<Longrightarrow> digitsVal acc [char_of (48 + d :: nat)] = Some (acc * 10 + d)"
  by (simp add: isDigit_def)

lemma digitsVal_FormatUint: "digitsVal 0 (FormatUint n) = Some n"
proof (induction n rule: FormatUint.induct)
  case (1 n)
  show ?case
  proof (cases "n < 10")
    case True
    then show ?thesis
      by (subst FormatUint.simps) (simp add: isDigit_def)
  next
    case False
    have "digitsVal 0 (FormatUint n) = digitsVal 0 (FormatUint (n div 10) @ [char_of (48 + n mod 10)])"
      using False by (subst FormatUint.simps) simp
    also have "\<dots> = digitsVal (n div 10) [char_of (48 + n mod 10)]"
      using "1.IH" False by (simp add: digitsVal_append)
    also have "\<dots> = Some (n div 10 * 10 + n mod 10)"
      by (rule digitsVal_digit) simp
    finally show ?thesis by simp
  qed
qed

lemma ParseUint_FormatUint: "ParseUint (FormatUint n) = Some n"
  by (simp add: ParseUint_def FormatUint_not_Nil digitsVal_FormatUint)

lemma isDigit_not_sign: "isDigit c \<Longrightarrow> c \<noteq> CHR ''+'' \<and> c \<noteq> CHR ''-'' \<and> c \<noteq> CHR '':''"
  by (auto simp: isDigit_def)

lemma hd_FormatUint: "isDigit (hd (FormatUint n))"
  using FormatUint_digits [of "hd (FormatUint n)" n] FormatUint_not_Nil [of n] by simp

lemma ParseInt_FormatUint: "int n < 2 ^ 63 \<Longrightarrow> ParseInt (FormatUint n) = Some (int n)"
  using isDigit_not_sign [OF hd_FormatUint [of n]]
  by (simp add: ParseInt_def FormatUint_not_Nil ParseUint_FormatUint Let_def)

lemma ParseInt_FormatInt:
  assumes "- (2 ^ 63) \<le> i" "i < 2 ^ 63"
  shows "ParseInt (FormatInt i) = Some i"
proof (cases "i < 0")
  case True
  then have "int (nat (- i)) \<le> 2 ^ 63" using assms by simp
  with True show ?thesis
    by (simp add: FormatInt_def ParseInt_def Let_def ParseUint_FormatUint)
next
  case False
  then show ?thesis using assms ParseInt_FormatUint [of "nat i"]
    by (simp add: FormatInt_def)
qed

lemma FormatInt_no_colon: "CHR '':'' \<notin> set (FormatInt i)"
  using isDigit_not_sign FormatUint_digits by (auto simp: FormatInt_def)

lemma FormatUint_no_colon: "CHR '':'' \<notin> set (FormatUint n)"
  using isDigit_not_sign FormatUint_digits by auto



lemma length_encodeStd: "length encodeStd = 64"
  by (simp add: encodeStd_def)

lemma distinct_encodeStd: "distinct encodeStd"
  by (simp add: encodeStd_def)

lemma indexIn_nth: "distinct xs \<Longrightarrow> i < length xs \<Longrightarrow> indexIn xs (xs ! i) = Some i"
proof (induction xs arbitrary: i)
  case Nil
  then show ?case by simp
next
  case (Cons x xs)
  then show ?case by (cases i) auto
qed

lemma indexIn_None: "c \<notin> set xs \<Longrightarrow> indexIn xs c = None"
  by (induction xs) auto

lemma decodeMap_encode: "i < 64 \<Longrightarrow> decodeMap (encode i) = Some i"
  by (simp add: decodeMap_def encode_def indexIn_nth distinct_encodeStd length_encodeStd)

lemma encode_in: "i < 64 \<Longrightarrow> encode i \<in> set encodeStd"
  by (simp add: encode_def length_encodeStd)

lemma encodeStd_excludes:
  "padChar \<notin> set encodeStd" "CHR '':'' \<notin> set encodeStd"
  "CHR 0x0A \<notin> set encodeStd" "CHR 0x0D \<notin> set encodeStd"
  by (simp_all add: encodeStd_def padChar_def)

lemma decodeMap_padChar: "decodeMap padChar = None"
  by (simp add: decodeMap_def indexIn_None encodeStd_excludes)



lemma sext_recompose:
  fixes v :: nat
  assumes "v < 16777216"
  shows "(v div 262144 mod 64) * 262144 + (v div 4096 mod 64) * 4096 + (v div 64 mod 64) * 64 + v mod 64 = v"
proof -
  have 1: "v div 4096 = v div 64 div 64" "v div 262144 = v div 64 div 64 div 64"
    by (simp_all add: div_mult2_eq [symmetric])
  have 2: "v div 64 div 64 div 64 < 64" using assms by (simp add: 1 [symmetric] less_mult_imp_div_less)
  define x where "x = v div 64"
  define y where "y = x div 64"
  define z where "z = y div 64"
  have a: "v = 64 * x + v mod 64" by (simp add: x_def)
  have b: "x = 64 * y + x mod 64" by (simp add: y_def)
  have c: "y = 64 * z + y mod 64" by (simp add: z_def)
  have d: "z mod 64 = z" using 2 by (simp add: z_def y_def x_def)
  have "z mod 64 * 262144 + y mod 64 * 4096 + x mod 64 * 64 + v mod 64 = v"
    unfolding d using a b c by linarith
  then show ?thesis by (simp add: 1 x_def y_def z_def)
qed

lemma bytes_split:
  fixes a b c :: nat
  assumes "b < 256" "c < 256"
  shows "(a * 65536 + b * 256 + c) div 65536 = a"
    and "(a * 65536 + b * 256 + c) div 256 mod 256 = b"
    and "(a * 65536 + b * 256 + c) mod 256 = c"
proof -
  have "b * 256 + c < 65536" using assms by simp
  then show "(a * 65536 + b * 256 + c) div 65536 = a"
    by (simp add: add.assoc)
  define t where "t = b + 256 * a"
  have e: "a * 65536 + b * 256 + c = c + 256 * t" by (simp add: t_def)
  have 1: "(c + 256 * t) div 256 = t" using assms by simp
  have 2: "t mod 256 = b" using assms by (simp add: t_def)
  have 3: "(c + 256 * t) mod 256 = c" using assms by simp
  show "(a * 65536 + b * 256 + c) div 256 mod 256 = b"
    unfolding e 1 2 ..
  show "(a * 65536 + b * 256 + c) mod 256 = c"
    unfolding e 3 ..
qed




lemma decode_full:
  fixes a b c :: char
  defines "v \<equiv> (of_char a :: nat) * 65536 + of_char b * 256 + of_char c"
  defines "v' \<equiv> (v div 262144 mod 64) * 262144 + (v div 4096 mod 64) * 4096 + (v div 64 mod 64) * 64 + v mod 64"
  shows "[char_of (v' div 65536), char_of (v' div 256), char_of v'] = [a, b, c]"
proof -
  have lt: "(of_char a :: nat) < 256" "(of_char b :: nat) < 256" "(of_char c :: nat) < 256"
    by (rule nat_of_char_less_256)+
  have "v < 16777216" unfolding v_def using lt by linarith
  then have e: "v' = v" unfolding v'_def by (rule sext_recompose)
  have 1: "v div 65536 = of_char a" unfolding v_def using lt by (intro bytes_split)
  have 3: "v mod 256 = of_char c" unfolding v_def using lt by (intro bytes_split)
  have 2: "v div 256 mod 256 = of_char b" unfolding v_def using lt by (intro bytes_split)
  have "char_of (v div 65536) = a" unfolding 1 by simp
  moreover have "char_of (v div 256) = b"
  proof -
    have "char_of (v div 256 mod 256) = char_of (v div 256)" by (rule char_of_mod_256)
    then show ?thesis unfolding 2 by simp
  qed
  moreover have "char_of v = c"
  proof -
    have "char_of (v mod 256) = char_of v" by (rule char_of_mod_256)
    then show ?thesis unfolding 3 by simp
  qed
  ultimately show ?thesis unfolding e by simp
qed

lemma decode_two:
  fixes a b :: char
  defines "v \<equiv> (of_char a :: nat) * 65536 + of_char b * 256"
  defines "v' \<equiv> (v div 262144 mod 64) * 262144 + (v div 4096 mod 64) * 4096 + (v div 64 mod 64) * 64"
  shows "[char_of (v' div 65536), char_of (v' div 256)] = [a, b]"
proof -
  have lt: "(of_char a :: nat) < 256" "(of_char b :: nat) < 256"
    by (rule nat_of_char_less_256)+
  have v0: "v = of_char a * 65536 + of_char b * 256 + 0" unfolding v_def by simp
  have "v < 16777216" unfolding v_def using lt by linarith
  then have r: "(v div 262144 mod 64) * 262144 + (v div 4096 mod 64) * 4096 + (v div 64 mod 64) * 64 + v mod 64 = v"
    by (rule sext_recompose)
  have "v mod 256 = 0" unfolding v0 using lt by (intro bytes_split) simp_all
  then have "256 dvd v" by (simp add: dvd_eq_mod_eq_0)
  moreover have "(64::nat) dvd 256" by simp
  ultimately have "64 dvd v" by (rule dvd_trans [rotated])
  then have "v mod 64 = 0" by (simp add: dvd_eq_mod_eq_0)
  moreover have "v' + v mod 64 = v" unfolding v'_def by (rule r)
  ultimately have e: "v' = v" by simp
  have 1: "v div 65536 = of_char a" unfolding v0 using lt by (intro bytes_split) simp_all
  have 2: "v div 256 mod 256 = of_char b" unfolding v0 using lt by (intro bytes_split) simp_all
  have "char_of (v div 65536) = a" unfolding 1 by simp
  moreover have "char_of (v div 256) = b"
  proof -
    have "char_of (v div 256 mod 256) = char_of (v div 256)" by (rule char_of_mod_256)
    then show ?thesis unfolding 2 by simp
  qed
  ultimately show ?thesis unfolding e by simp
qed


lemma decode_one:
  fixes a :: char
  defines "v \<equiv> (of_char a :: nat) * 65536"
  shows "char_of (((v div 262144 mod 64) * 262144 + (v div 4096 mod 64) * 4096) div 65536) = a"
proof -
  have lt: "(of_char a :: nat) < 256" by (rule nat_of_char_less_256)
  have "v < 16777216" unfolding v_def using lt by linarith
  then have r: "(v div 262144 mod 64) * 262144 + (v div 4096 mod 64) * 4096 + (v div 64 mod 64) * 64 + v mod 64 = v"
    by (rule sext_recompose)
  have v4: "v = 4096 * (16 * of_char a)" unfolding v_def by simp
  have m0: "v mod 64 = 0" unfolding v4 by simp
  have m1: "v div 64 mod 64 = 0" unfolding v4 by simp
  have e: "(v div 262144 mod 64) * 262144 + (v div 4096 mod 64) * 4096 = v"
    using r unfolding m0 m1 by (simp only: mult_zero_left add_0_right)
  have "v div 65536 = of_char a" unfolding v_def by simp
  then show ?thesis unfolding e by simp
qed

lemma sextet_lt: "(n::nat) mod 64 < 64"
  by simp

lemma decodeQuanta_EncodeToString: "decodeQuanta (EncodeToString s) = Some s"
proof (induction s rule: EncodeToString.induct)
  case (1 a b c rest)
  show ?case
    using "1.IH" decode_full [of a b c]
    by (simp add: Let_def decodeMap_encode sextet_lt del: One_nat_def)
next
  case (2 a b)
  show ?case
    using decode_two [of a b]
    by (simp add: Let_def decodeMap_encode sextet_lt decodeMap_padChar)
next
  case (3 a)
  show ?case
    using decode_one [of a]
    by (simp add: Let_def decodeMap_encode sextet_lt decodeMap_padChar)
next
  case 4
  show ?case by simp
qed

lemma EncodeToString_chars:
  "x \<in> set (EncodeToString s) \<Longrightarrow> x \<in> set encodeStd \<or> x = padChar"
  by (induction s arbitrary: x rule: EncodeToString.induct)
     (auto simp: Let_def encode_in)

lemma EncodeToString_no_colon: "CHR '':'' \<notin> set (EncodeToString s)"
  using EncodeToString_chars [of "CHR '':''" s] encodeStd_excludes by (auto simp: padChar_def)

lemma DecodeString_EncodeToString: "DecodeString (EncodeToString s) = Some s"
proof -
  have "filter (\<lambda>c. c \<noteq> CHR 0x0A \<and> c \<noteq> CHR 0x0D) (EncodeToString s) = EncodeToString s"
    using EncodeToString_chars [of _ s] encodeStd_excludes
    by (auto simp: filter_id_conv padChar_def)
  then show ?thesis by (simp add: DecodeString_def decodeQuanta_EncodeToString)
qed



lemma Split_elems_no_sep: "w \<in> set (Split s sep) \<Longrightarrow> sep \<notin> set w"
proof (induction s arbitrary: w)
  case Nil
  then show ?case by simp
next
  case (Cons c cs)
  then show ?case
    by (auto split: if_splits list.splits)
qed

lemma Split_String:
  assumes "CHR '':'' \<notin> set (date h)" "CHR '':'' \<notin> set (resource h)" "CHR '':'' \<notin> set (random h)"
  shows "Split (String h) CHR '':'' =
           [FormatInt Version, FormatUint (unat (bits h)), date h, resource h, [], random h,
            EncodeToString (FormatInt (sint (counter h)))]"
  using assms
  by (simp add: String_def Split_append_sep Split_no_sep FormatInt_no_colon FormatUint_no_colon
      EncodeToString_no_colon)

lemma Atoi_Version: "Atoi (FormatInt Version) = Some Version"
  using ParseInt_FormatInt [of Version] by (simp add: Atoi_def Version_def)

lemma word_of_int_Version: "(word_of_int Version :: 8 word) = 1"
  by (simp add: Version_def)

lemma sint64_range: "- (2 ^ 63) \<le> sint (w :: 64 word)" "sint (w :: 64 word) < 2 ^ 63"
  using sint_ge [of w] sint_lt [of w] by simp_all

lemma ParseHeaderString_String:
  assumes "version h = 1" and "unat (bits h) < 2 ^ 63"
    and "CHR '':'' \<notin> set (date h)" "CHR '':'' \<notin> set (resource h)" "CHR '':'' \<notin> set (random h)"
    and "dateOk (date h)"
  shows "ParseHeaderString dateOk (String h) = Inr h"
proof -
  have b: "Atoi (FormatUint (unat (bits h))) = Some (int (unat (bits h)))"
  proof -
    have "int (unat (bits h)) < int (2 ^ 63)"
      using assms(2) by (simp only: of_nat_less_iff)
    then have "int (unat (bits h)) < 2 ^ 63" by (simp only: of_nat_power of_nat_numeral)
    then show ?thesis unfolding Atoi_def by (rule ParseInt_FormatUint)
  qed
  have c: "ParseInt (FormatInt (sint (counter h))) = Some (sint (counter h))"
    by (intro ParseInt_FormatInt sint64_range)
  show ?thesis
    unfolding ParseHeaderString_def Split_String [OF assms(3-5)]
    using assms(1,6)
    by (simp add: Let_def Atoi_Version b c DecodeString_EncodeToString word_of_int_Version)
qed

section \<open>Properties of parsing, mining and verification\<close>



lemma getHash_simp: "getHash sha header hs = (sha header, header)"
  by (simp add: getHash_def Reset_def Write_def Sum_def)

lemma ParseHeaderString_InrD:
  assumes "ParseHeaderString dateOk s = Inr h"
  shows "version h = 1" "dateOk (date h)"
    "CHR '':'' \<notin> set (date h)" "CHR '':'' \<notin> set (resource h)" "CHR '':'' \<notin> set (random h)"
    "length (Split s CHR '':'') = 7"
    "date h = Split s CHR '':'' ! 2" "resource h = Split s CHR '':'' ! 3" "random h = Split s CHR '':'' ! 5"
    "\<exists>b. Atoi (Split s CHR '':'' ! 1) = Some b \<and> bits h = word_of_int b"
    "\<exists>bs c. DecodeString (Split s CHR '':'' ! 6) = Some bs \<and> ParseInt bs = Some c \<and> counter h = word_of_int c"
proof -
  have len: "length (Split s CHR '':'') = 7"
    using assms by (auto simp: ParseHeaderString_def Let_def split: if_splits)
  have nocolon: "CHR '':'' \<notin> set (Split s CHR '':'' ! i)" if "i < 7" for i
    using that len by (intro Split_elems_no_sep [of _ s]) simp
  show "length (Split s CHR '':'') = 7" by (rule len)
  show "version h = 1" using assms
    by (auto simp: ParseHeaderString_def Let_def word_of_int_Version split: if_splits option.splits)
  show "dateOk (date h)" using assms
    by (auto simp: ParseHeaderString_def Let_def split: if_splits option.splits)
  show d: "date h = Split s CHR '':'' ! 2" using assms
    by (auto simp: ParseHeaderString_def Let_def split: if_splits option.splits)
  show r: "resource h = Split s CHR '':'' ! 3" using assms
    by (auto simp: ParseHeaderString_def Let_def split: if_splits option.splits)
  show n: "random h = Split s CHR '':'' ! 5" using assms
    by (auto simp: ParseHeaderString_def Let_def split: if_splits option.splits)
  show "CHR '':'' \<notin> set (date h)" unfolding d by (rule nocolon) simp
  show "CHR '':'' \<notin> set (resource h)" unfolding r by (rule nocolon) simp
  show "CHR '':'' \<notin> set (random h)" unfolding n by (rule nocolon) simp
  show "\<exists>b. Atoi (Split s CHR '':'' ! 1) = Some b \<and> bits h = word_of_int b" using assms
    by (auto simp: ParseHeaderString_def Let_def split: if_splits option.splits)
  show "\<exists>bs c. DecodeString (Split s CHR '':'' ! 6) = Some bs \<and> ParseInt bs = Some c \<and> counter h = word_of_int c"
    using assms
    by (auto simp: ParseHeaderString_def Let_def split: if_splits option.splits)
qed



lemma calculateLoop_result:
  assumes "calculateLoop sha b h hs = Some y"
  shows "\<forall>r hs'. y = (Inr r, hs') \<longrightarrow>
           (\<exists>c. r = String (h\<lparr>counter := c\<rparr>)) \<and> checkBits (sha r) b = Inr True \<and> hs' = r"
proof (rule calculateLoop.raw_induct
    [where P = "\<lambda>sha b h hs y. \<forall>r hs'. y = (Inr r, hs') \<longrightarrow>
           (\<exists>c. r = String (h\<lparr>counter := c\<rparr>)) \<and> checkBits (sha r) b = Inr True \<and> hs' = r",
     OF _ assms])
  fix loop sha b h hs y
  assume IH: "\<And>sha b h hs y. loop sha b h hs = Some y \<Longrightarrow>
       \<forall>r hs'. y = (Inr r, hs') \<longrightarrow>
           (\<exists>c. r = String (h\<lparr>counter := c\<rparr>)) \<and> checkBits (sha r) b = Inr True \<and> hs' = r"
    and body: "(let (calculatedHash, hs') = getHash sha (String h) hs
      in case checkBits calculatedHash b of Inl e \<Rightarrow> Some (Inl e, hs')
         | Inr ok \<Rightarrow>
             if \<not> ok
             then loop sha b (h\<lparr>counter := counter h + 1\<rparr>) hs'
             else Some (Inr (String h), hs')) = Some y"
  show "\<forall>r hs'. y = (Inr r, hs') \<longrightarrow>
           (\<exists>c. r = String (h\<lparr>counter := c\<rparr>)) \<and> checkBits (sha r) b = Inr True \<and> hs' = r"
  proof (cases "checkBits (sha (String h)) b")
    case (Inl e)
    with body show ?thesis by (auto simp: getHash_simp)
  next
    case (Inr ok)
    show ?thesis
    proof (cases ok)
      case True
      have "h = h\<lparr>counter := counter h\<rparr>" by simp
      then have "\<exists>c. String h = String (h\<lparr>counter := c\<rparr>)" by metis
      with body Inr True show ?thesis by (auto simp: getHash_simp)
    next
      case False
      with body Inr
      have "loop sha b (h\<lparr>counter := counter h + 1\<rparr>) (String h) = Some y"
        by (simp add: getHash_simp)
      from IH [OF this] show ?thesis by simp
    qed
  qed
qed

lemma Calculate_result:
  assumes "Calculate dateOk sha c hs = Some (Inr r, hs')"
  shows "\<exists>h k. ParseHeaderString dateOk c = Inr h \<and> r = String (h\<lparr>counter := k\<rparr>)
               \<and> checkBits (sha r) (bits h) = Inr True \<and> hs' = r"
proof (cases "ParseHeaderString dateOk c")
  case (Inl e)
  with assms show ?thesis by (simp add: Calculate_def)
next
  case (Inr h)
  with assms have "calculateLoop sha (bits h) h hs = Some (Inr r, hs')"
    by (simp add: Calculate_def)
  from calculateLoop_result [OF this] Inr show ?thesis by simp
qed

lemma checkBits_Inr_bound:
  assumes "checkBits d b = Inr ok"
  shows "unat b div 8 \<le> length d"
proof (rule ccontr)
  assume "\<not> unat b div 8 \<le> length d"
  then have "length d < unat (b div 8)" by (simp add: unat_div)
  then have "checkBits d b = Inl Panic" by (simp add: checkBits_def Let_def)
  with assms show False by simp
qed

lemma checkBits_Inr_small:
  assumes "checkBits d b = Inr ok" and "length d = 32"
  shows "unat b < 2 ^ 63"
proof -
  have "unat b div 8 \<le> 32" using checkBits_Inr_bound [OF assms(1)] assms(2) by simp
  moreover have "unat b = 8 * (unat b div 8) + unat b mod 8" by simp
  moreover have "unat b mod 8 < 8" by simp
  ultimately have "unat b < 264" by linarith
  then show ?thesis by simp
qed



lemma top_bits_cond:
  assumes "r < 8"
  shows "(\<forall>j<r. \<not> bit (b::byte) (7 - j)) \<longleftrightarrow> (0 < r \<longrightarrow> unat b < 2 ^ (8 - r))"
proof (cases "r = 0")
  case True
  then show ?thesis by simp
next
  case False
  then show ?thesis using top_bits_lt [of r b] assms by simp
qed

lemma checkBits_leadingZeroBits:
  assumes "unat nbits \<le> 8 * length d"
  shows "checkBits d nbits = Inr (unat nbits \<le> leadingZeroBits d)"
proof -
  define q where "q = unat nbits div 8"
  define r where "r = unat nbits mod 8"
  have r8: "r < 8" by (simp add: r_def)
  have lz: "unat nbits \<le> leadingZeroBits d \<longleftrightarrow>
        (\<forall>i < q. d ! i = 0) \<and> (\<forall>j<r. \<not> bit (d ! q) (7 - j))"
    using leadingZeroBits_ge [OF assms] by (simp add: q_def r_def)
  have qle: "q \<le> length d" unfolding q_def using assms by (simp add: div_le_mono [of _ "8 * length d" 8, simplified])
  show ?thesis
  proof (cases "q < length d")
    case True
    have "checkBits d nbits = Inr ((\<forall>i < q. d ! i = 0) \<and> (0 < r \<longrightarrow> unat (d ! q) < 2 ^ (8 - r)))"
      unfolding q_def r_def using True by (intro checkBits_char) (simp add: q_def)
    then show ?thesis unfolding lz top_bits_cond [OF r8] .
  next
    case False
    with qle have ql: "q = length d" by simp
    have "unat nbits = 8 * q + r" by (simp add: q_def r_def)
    with assms ql have r0: "r = 0" by simp
    have uq: "unat (nbits div 8) = q" by (simp add: unat_div q_def)
    have ur: "unat (nbits mod 8) = r" by (simp add: unat_mod r_def)
    have m0: "\<not> nbits mod 8 > 0" using ur r0 by (simp add: word_less_nat_alt)
    have "checkBits d nbits = Inr (\<forall>i < q. d ! i = 0)"
      using ql m0 zeroPrefix_take [of "length d" d]
      by (simp add: checkBits_def Let_def uq)
    then show ?thesis unfolding lz using r0 by simp
  qed
qed

lemma Verify_parsed:
  assumes "ParseHeaderString dateOk calculated = Inr hc"
    and "ParseHeaderString dateOk challenge = Inr hch"
  shows "Verify dateOk sha calculated challenge hs =
     (if version hc \<noteq> version hch \<or> bits hc \<noteq> bits hch \<or> date hc \<noteq> date hch \<or>
         resource hc \<noteq> resource hch \<or> random hc \<noteq> random hch
      then (Inl ChallengeMismatch, hs)
      else (case checkBits (sha (String hc)) (bits hc) of
              Inl e \<Rightarrow> (Inl e, String hc)
            | Inr ok \<Rightarrow> (Inr ok, String hc)))"
  using assms by (auto simp: Verify_def getHash_simp split: sum.splits)

theorem Verify_Calculate:
  assumes "\<forall>s. length (sha s) = 32"
    and "Calculate dateOk sha c hs = Some (Inr r, hs')"
  shows "Verify dateOk sha r c hs' = (Inr True, r)"
proof -
  from Calculate_result [OF assms(2)] obtain h k where
    pc: "ParseHeaderString dateOk c = Inr h" and r: "r = String (h\<lparr>counter := k\<rparr>)"
    and cb: "checkBits (sha r) (bits h) = Inr True" and hs': "hs' = r"
    by blast
  define h' where "h' = h\<lparr>counter := k\<rparr>"
  have small: "unat (bits h) < 2 ^ 63"
    using checkBits_Inr_small [OF cb] assms(1) by simp
  note D = ParseHeaderString_InrD [OF pc]
  have pr: "ParseHeaderString dateOk r = Inr h'"
    unfolding r h'_def [symmetric]
    using D(1-5) small by (intro ParseHeaderString_String) (simp_all add: h'_def)
  have "Verify dateOk sha r c hs' = (Inr True, String h')"
    unfolding Verify_parsed [OF pr pc] using cb by (simp add: h'_def r)
  then show ?thesis by (simp add: r h'_def)
qed


theorem Verify_Calculate_witness:
  "(\<forall>s. length (sumDigest s) = 32)
   \<and> Calculate tenDigits sumDigest ''1:12:2208082121:resource::cmFuZG9t:MjgxNQ=='' []
       = Some (Inr ''1:12:2208082121:resource::cmFuZG9t:MjgxNw=='',
               ''1:12:2208082121:resource::cmFuZG9t:MjgxNw=='')
   \<and> Verify tenDigits sumDigest ''1:12:2208082121:resource::cmFuZG9t:MjgxNw==''
        ''1:12:2208082121:resource::cmFuZG9t:MjgxNQ==''
        ''1:12:2208082121:resource::cmFuZG9t:MjgxNw==''
       = (Inr True, ''1:12:2208082121:resource::cmFuZG9t:MjgxNw=='')"
proof -
  have len: "\<forall>s. length (sumDigest s) = 32" by (simp add: sumDigest_def)
  have c: "Calculate tenDigits sumDigest ''1:12:2208082121:resource::cmFuZG9t:MjgxNQ=='' []
       = Some (Inr ''1:12:2208082121:resource::cmFuZG9t:MjgxNw=='',
               ''1:12:2208082121:resource::cmFuZG9t:MjgxNw=='')"
    by code_simp
  from len c Verify_Calculate [OF len c] show ?thesis by (simp only: simp_thms)
qed

theorem Calculate_changes_counter_only:
  assumes "\<forall>s. length (sha s) = 32"
    and "Calculate dateOk sha c hs = Some (Inr r, hs')"
  shows "\<exists>h h'. ParseHeaderString dateOk c = Inr h \<and> ParseHeaderString dateOk r = Inr h'
           \<and> version h' = version h \<and> bits h' = bits h \<and> date h' = date h
           \<and> resource h' = resource h \<and> random h' = random h
           \<and> h' = h\<lparr>counter := counter h'\<rparr>"
proof -
  from Calculate_result [OF assms(2)] obtain h k where
    pc: "ParseHeaderString dateOk c = Inr h" and r: "r = String (h\<lparr>counter := k\<rparr>)"
    and cb: "checkBits (sha r) (bits h) = Inr True"
    by blast
  define h' where "h' = h\<lparr>counter := k\<rparr>"
  have small: "unat (bits h) < 2 ^ 63"
    using checkBits_Inr_small [OF cb] assms(1) by simp
  note D = ParseHeaderString_InrD [OF pc]
  have pr: "ParseHeaderString dateOk r = Inr h'"
    unfolding r h'_def [symmetric]
    using D(1-5) small by (intro ParseHeaderString_String) (simp_all add: h'_def)
  show ?thesis
    by (rule exI [of _ h], rule exI [of _ h']) (simp add: pc pr h'_def)
qed

theorem Calculate_changes_counter_only_witness:
  "(\<forall>s. length (sumDigest s) = 32)
   \<and> Calculate tenDigits sumDigest ''1:12:2208082121:resource::cmFuZG9t:MjgxNQ=='' []
       = Some (Inr ''1:12:2208082121:resource::cmFuZG9t:MjgxNw=='',
               ''1:12:2208082121:resource::cmFuZG9t:MjgxNw=='')
   \<and> (\<exists>h h'. ParseHeaderString tenDigits ''1:12:2208082121:resource::cmFuZG9t:MjgxNQ=='' = Inr h
         \<and> ParseHeaderString tenDigits ''1:12:2208082121:resource::cmFuZG9t:MjgxNw=='' = Inr h'
         \<and> version h' = version h \<and> bits h' = bits h \<and> date h' = date h
         \<and> resource h' = resource h \<and> random h' = random h
         \<and> h' = h\<lparr>counter := counter h'\<rparr>)"
proof -
  have len: "\<forall>s. length (sumDigest s) = 32" by (simp add: sumDigest_def)
  have c: "Calculate tenDigits sumDigest ''1:12:2208082121:resource::cmFuZG9t:MjgxNQ=='' []
       = Some (Inr ''1:12:2208082121:resource::cmFuZG9t:MjgxNw=='',
               ''1:12:2208082121:resource::cmFuZG9t:MjgxNw=='')"
    by code_simp
  from len c Calculate_changes_counter_only [OF len c] show ?thesis by (simp only: simp_thms)
qed


end
